theory Spec2Isabelle
  imports Main "HOL-Library.Word" "HOL-Library.AList"
begin

section \<open>Data model (internal/monitor/store.go)\<close>

text \<open>
  Go's \<open>int\<close> and \<open>int64\<close> are 64-bit two's complement integers on the targets the
  Dockerfile builds for: \<open>+\<close> wraps around, comparisons are signed (\<open>sint\<close>).
\<close>

type_synonym go_int = "64 word"
type_synonym int64 = "64 word"

text \<open>
  \<open>type Monitor struct\<close>. The timestamps \<open>CreatedAt\<close> and \<open>UpdatedAt\<close> are set by the
  database clock (\<open>datetime('now')\<close>) and are read by none of the functions below.
\<close>

record Monitor =
  ID :: int64
  Name :: string
  URL :: string
  IntervalSeconds :: go_int
  TimeoutSeconds :: go_int
  State :: string
  ConsecutiveFailures :: go_int

text \<open>
  \<open>type Check struct\<close>, as \<open>RecordCheck\<close> inserts it: the four columns
  \<open>monitor_id, status_code, response_time_ms, is_up\<close>. \<open>ID\<close> and \<open>CheckedAt\<close> are
  assigned by the database. A nil \<open>*int\<close> is \<open>None\<close>.
\<close>

record Check =
  MonitorID :: int64
  StatusCode :: "go_int option"
  ResponseTimeMs :: "go_int option"
  IsUp :: bool

text \<open>
  The part of the database the worker touches: the \<open>monitors\<close> table keyed by id, and
  \<open>checks\<close>, the rows inserted into the checks table, oldest first. The expiry of rows
  older than seven days (the trigger \<open>prune_old_checks\<close> and \<open>PruneOldChecks\<close>) depends on
  the database clock and is left out: \<open>checks\<close> is the log of the inserts.
\<close>

record Store =
  monitors :: "int64 \<rightharpoonup> Monitor"
  checks :: "Check list"

datatype db_error = DbError

text \<open>
  Every statement can fail (busy database, closed handle, constraint): whether it does
  is decided by the environment and passed as \<open>fails\<close>. A failed statement changes
  nothing.
\<close>

text \<open>\<open>func (s *Store) Get\<close>: \<open>(nil, nil)\<close> when no row has the id, \<open>Inr None\<close> here.\<close>

definition Get :: "bool \<Rightarrow> int64 \<Rightarrow> Store \<Rightarrow> db_error + Monitor option" where
  "Get fails monitorID s = (if fails then Inl DbError else Inr (monitors s monitorID))"

text \<open>
  \<open>func (s *Store) UpdateState\<close>: one \<open>UPDATE monitors SET state = ?,
  consecutive_failures = ? WHERE id = ?\<close>; no row with the id is no error.
\<close>

definition UpdateState :: "bool \<Rightarrow> int64 \<Rightarrow> string \<Rightarrow> go_int \<Rightarrow> Store \<Rightarrow> db_error option \<times> Store" where
  "UpdateState fails monitorID state consecutiveFailures s =
     (if fails then (Some DbError, s)
      else (None,
        (case monitors s monitorID of
           None \<Rightarrow> s
         | Some m \<Rightarrow>
             s\<lparr>monitors := (monitors s)(monitorID \<mapsto>
                  m\<lparr>State := state, ConsecutiveFailures := consecutiveFailures\<rparr>)\<rparr>)))"

text \<open>\<open>func (s *Store) RecordCheck\<close>: one \<open>INSERT INTO checks\<close>.\<close>

definition RecordCheck :: "bool \<Rightarrow> Check \<Rightarrow> Store \<Rightarrow> db_error option \<times> Store" where
  "RecordCheck fails c s =
     (if fails then (Some DbError, s) else (None, s\<lparr>checks := checks s @ [c]\<rparr>))"

section \<open>Calls on collaborators\<close>

text \<open>
  What a tick or a notification does to the outside world, in order: the calls on the
  Store, a call of \<open>Alerter.Notify\<close>, the lines written with \<open>log.Printf\<close>, the
  webhook POSTs and the sleeps.
\<close>

datatype log_line =
  LogBuildRequest
  | LogRecordCheck
  | LogUpdateState
  | LogAlertSending
  | LogWebhookFailed
  | LogRetryFailed
  | LogRetrySucceeded

record AlertPayload =
  MonitorName :: string
  PayloadURL :: string
  Status :: string
  Timestamp :: string

datatype event =
  CallRecordCheck Check
  | CallGet int64
  | CallUpdateState int64 string go_int
  | CallNotify Monitor
  | Log log_line
  | HttpPost string AlertPayload
  | Sleep nat

section \<open>The checker (internal/monitor, Checker)\<close>

text \<open>\<open>const failureThreshold = 3\<close>\<close>

definition failureThreshold :: go_int where
  "failureThreshold = 3"

subsection \<open>The probe's HTTP client\<close>

text \<open>
  \<open>CheckRedirect\<close> of the client built in \<open>probe\<close>: it reads only \<open>len(via)\<close>.
  \<open>None\<close> is the nil error (follow the redirect), \<open>Some ErrUseLastResponse\<close> stops.
\<close>

datatype redirect_error = ErrUseLastResponse

definition CheckRedirect :: "'req list \<Rightarrow> redirect_error option" where
  "CheckRedirect via = (if length via \<ge> 10 then Some ErrUseLastResponse else None)"

text \<open>
  What the network answers to one request of a probe: a transport failure (DNS,
  connect, TLS, timeout, cancelled context), a response that \<open>net/http\<close> hands back
  as it is, or a redirect response (301, 302, 303, 307, 308 with a Location header)
  that \<open>net/http\<close> would follow.
\<close>

datatype hop = Fail | Final go_int | Redirect go_int

datatype http_result = HttpErr | Resp go_int

text \<open>
  \<open>client.Do(req)\<close> for this client, after the documented loop of \<open>net/http\<close>
  (\<open>Client.do\<close>): each request sent is appended to the requests made so far; on a
  redirect response the client calls \<open>CheckRedirect\<close> with the requests made already
  (oldest first) before it follows the redirect; on \<open>ErrUseLastResponse\<close> the most
  recent response is returned with a nil error. \<open>server k\<close> is the answer to request no.
  \<open>k\<close> (from 0); \<open>via\<close> lists the numbers of the requests made already. The result
  carries the requests made in all.
\<close>

function Do_from :: "(nat \<Rightarrow> hop) \<Rightarrow> nat list \<Rightarrow> http_result \<times> nat list" where
  "Do_from server via =
     (let reqs = via @ [length via] in
      case server (length via) of
        Fail \<Rightarrow> (HttpErr, reqs)
      | Final code \<Rightarrow> (Resp code, reqs)
      | Redirect code \<Rightarrow>
          (case CheckRedirect reqs of
             Some ErrUseLastResponse \<Rightarrow> (Resp code, reqs)
           | None \<Rightarrow> Do_from server reqs))"
  by pat_completeness auto
termination
  by (relation "measure (\<lambda>(server, via). 10 - length via)")
     (auto simp: CheckRedirect_def split: if_splits)

definition Do :: "(nat \<Rightarrow> hop) \<Rightarrow> http_result \<times> nat list" where
  "Do server = Do_from server []"

subsection \<open>One tick: probe and updateState\<close>

text \<open>
  The environment of one tick: the network's answers, the elapsed milliseconds
  measured around \<open>client.Do\<close>, and which of the three Store statements fail.
\<close>

record tick_env =
  server :: "nat \<Rightarrow> hop"
  elapsed :: go_int
  record_fails :: bool
  get_fails :: bool
  update_fails :: bool

text \<open>
  Lines 188 to 202 of \<open>updateState\<close>: the new state and failure count from the
  monitor just read and the probe's result.
\<close>

definition decide :: "Monitor \<Rightarrow> bool \<Rightarrow> string \<times> go_int" where
  "decide m isUp =
     (if isUp then (''up'', 0)
      else
        (let failures = ConsecutiveFailures m + 1 in
         if sint failureThreshold \<le> sint failures then (''down'', failures)
         else (State m, failures)))"

text \<open>\<open>func (c *Checker) updateState\<close>\<close>

definition updateState :: "int64 \<Rightarrow> bool \<Rightarrow> tick_env \<Rightarrow> Store \<Rightarrow> Store \<times> event list" where
  "updateState monitorID isUp e s =
     (case Get (get_fails e) monitorID s of
        Inl err \<Rightarrow> (s, [CallGet monitorID])
      | Inr None \<Rightarrow> (s, [CallGet monitorID])
      | Inr (Some m) \<Rightarrow>
          (let (newState, failures) = decide m isUp in
           case UpdateState (update_fails e) monitorID newState failures s of
             (Some err, s') \<Rightarrow>
               (s', [CallGet monitorID, CallUpdateState monitorID newState failures,
                     Log LogUpdateState])
           | (None, s') \<Rightarrow>
               (s', [CallGet monitorID, CallUpdateState monitorID newState failures])))"

text \<open>
  The Check built by \<open>probe\<close> (lines 158 to 172) from the result of \<open>client.Do\<close> and the
  elapsed milliseconds.
\<close>

definition make_check :: "int64 \<Rightarrow> http_result \<Rightarrow> go_int \<Rightarrow> Check" where
  "make_check monitorID r ms =
     (case r of
        HttpErr \<Rightarrow>
          \<lparr>MonitorID = monitorID, StatusCode = None, ResponseTimeMs = Some ms, IsUp = False\<rparr>
      | Resp code \<Rightarrow>
          \<lparr>MonitorID = monitorID, StatusCode = Some code, ResponseTimeMs = Some ms,
           IsUp = (200 \<le> sint code \<and> sint code < 400)\<rparr>)"

text \<open>
  \<open>func (c *Checker) probe\<close>. \<open>request_ok url\<close> says whether
  \<open>http.NewRequestWithContext(ctx, GET, url, nil)\<close> returns a request: with a non-nil
  context and a fixed method this depends on the url alone. The context and the timeout
  act through the network's answers (\<open>Fail\<close>).
\<close>

definition probe :: "(string \<Rightarrow> bool) \<Rightarrow> int64 \<Rightarrow> string \<Rightarrow> tick_env \<Rightarrow> Store \<Rightarrow> Store \<times> event list" where
  "probe request_ok monitorID url e s =
     (if \<not> request_ok url then (s, [Log LogBuildRequest])
      else
        (let check = make_check monitorID (fst (Do (server e))) (elapsed e) in
         case RecordCheck (record_fails e) check s of
           (Some err, s') \<Rightarrow> (s', [CallRecordCheck check, Log LogRecordCheck])
         | (None, s') \<Rightarrow>
             (let (s'', evs) = updateState monitorID (IsUp check) e s'
              in (s'', CallRecordCheck check # evs))))"

text \<open>
  The loop of the goroutine started by \<open>startWorker\<close>: the first probe and one probe per
  tick of the ticker, with the id and url captured when the loop started. The list holds
  the environments of the ticks that fire before the context is cancelled.
\<close>

fun worker_loop :: "(string \<Rightarrow> bool) \<Rightarrow> int64 \<Rightarrow> string \<Rightarrow> tick_env list \<Rightarrow> Store \<Rightarrow> Store \<times> event list" where
  "worker_loop request_ok monitorID url [] s = (s, [])"
| "worker_loop request_ok monitorID url (e # es) s =
     (let (s', evs) = probe request_ok monitorID url e s;
          (s'', evs') = worker_loop request_ok monitorID url es s'
      in (s'', evs @ evs'))"


subsection \<open>The supervisor: registry and goroutines\<close>

text \<open>
  What a goroutine of the checker runs: the polling loop of \<open>startWorker\<close> with the id,
  url, interval and timeout its closure captured, or the prune ticker of \<open>Start\<close>.
\<close>

datatype task = Worker int64 string go_int go_int | Pruner

text \<open>
  A goroutine counted by the WaitGroup (\<open>c.wg.Add(1)\<close> before \<open>go\<close>, deferred
  \<open>c.wg.Done()\<close>). \<open>handle\<close> names it, and for a worker also the cancel func of its
  \<open>workerCtx\<close>. \<open>parent\<close> is the context passed to \<open>Start\<close>, \<open>Add\<close> or \<open>Restart\<close>:
  a worker selects on a child of it, the pruner on the context itself. \<open>cancelled\<close>
  records that the worker's own cancel func has been called.
\<close>

record goroutine =
  handle :: nat
  task :: task
  parent :: nat
  cancelled :: bool

text \<open>
  \<open>type Checker struct\<close>: \<open>cancel\<close> is the map from monitor id to cancel func (an
  association list read with \<open>map_of\<close>), \<open>goroutines\<close> the goroutines started so far,
  each counted by the WaitGroup until it exits, \<open>fresh\<close> the next unused handle. All
  operations below run their registry accesses under \<open>c.mu\<close>, one after the other.
\<close>

record Checker =
  cancel :: "(int64 \<times> nat) list"
  goroutines :: "goroutine list"
  fresh :: nat

definition NewChecker :: Checker where
  "NewChecker = \<lparr>cancel = [], goroutines = [], fresh = 0\<rparr>"

text \<open>
  \<open>func (c *Checker) startWorker\<close>: \<open>c.cancel[m.ID] = cancel\<close> overwrites an entry
  already there; then the goroutine is started.
\<close>

definition startWorker :: "nat \<Rightarrow> Monitor \<Rightarrow> Checker \<Rightarrow> Checker" where
  "startWorker ctx m c =
     c\<lparr>cancel := AList.update (ID m) (fresh c) (cancel c),
       goroutines := goroutines c @
         [\<lparr>handle = fresh c,
           task = Worker (ID m) (URL m) (IntervalSeconds m) (TimeoutSeconds m),
           parent = ctx, cancelled = False\<rparr>],
       fresh := Suc (fresh c)\<rparr>"

text \<open>\<open>func (c *Checker) stopWorker\<close>: delete the entry, if there is one, and call it.\<close>

definition stopWorker :: "int64 \<Rightarrow> Checker \<Rightarrow> Checker" where
  "stopWorker monitorID c =
     (case map_of (cancel c) monitorID of
        None \<Rightarrow> c
      | Some h \<Rightarrow>
          c\<lparr>cancel := AList.delete monitorID (cancel c),
            goroutines :=
              map (\<lambda>g. if handle g = h then g\<lparr>cancelled := True\<rparr> else g) (goroutines c)\<rparr>)"

text \<open>\<open>func (c *Checker) Add\<close>\<close>

definition Add :: "nat \<Rightarrow> Monitor \<Rightarrow> Checker \<Rightarrow> Checker" where
  "Add ctx m c = startWorker ctx m c"

text \<open>\<open>func (c *Checker) Restart\<close>\<close>

definition Restart :: "nat \<Rightarrow> Monitor \<Rightarrow> Checker \<Rightarrow> Checker" where
  "Restart ctx m c = startWorker ctx m (stopWorker (ID m) c)"

text \<open>\<open>func (c *Checker) Remove\<close>\<close>

definition Remove :: "int64 \<Rightarrow> Checker \<Rightarrow> Checker" where
  "Remove monitorID c = stopWorker monitorID c"

text \<open>
  \<open>func (c *Checker) Start\<close>; \<open>listed\<close> is what \<open>c.store.List()\<close> returned. After the
  workers, the prune ticker is started on \<open>ctx\<close> itself: no cancel func of it is kept.
\<close>

definition Start :: "nat \<Rightarrow> db_error + Monitor list \<Rightarrow> Checker \<Rightarrow> db_error option \<times> Checker" where
  "Start ctx listed c =
     (case listed of
        Inl err \<Rightarrow> (Some err, c)
      | Inr ms \<Rightarrow>
          (let c' = fold (startWorker ctx) ms c in
           (None,
            c'\<lparr>goroutines := goroutines c' @
                  [\<lparr>handle = fresh c', task = Pruner, parent = ctx, cancelled = False\<rparr>],
                fresh := Suc (fresh c')\<rparr>)))"

text \<open>
  A goroutine leaves its loop (and runs \<open>wg.Done\<close>) once its context is done: its own
  cancel func was called, or the parent context is cancelled. \<open>ctx_done\<close> tells which
  parent contexts are cancelled. A loop is running while its context is live.
\<close>

definition exits :: "(nat \<Rightarrow> bool) \<Rightarrow> goroutine \<Rightarrow> bool" where
  "exits ctx_done g = (cancelled g \<or> ctx_done (parent g))"

definition running :: "(nat \<Rightarrow> bool) \<Rightarrow> Checker \<Rightarrow> goroutine list" where
  "running ctx_done c = filter (\<lambda>g. \<not> exits ctx_done g) (goroutines c)"

fun polls :: "int64 \<Rightarrow> task \<Rightarrow> bool" where
  "polls monitorID (Worker i url interval timeout) = (i = monitorID)"
| "polls monitorID Pruner = False"

text \<open>The running polling loops of one monitor id.\<close>

definition loops_of :: "(nat \<Rightarrow> bool) \<Rightarrow> Checker \<Rightarrow> int64 \<Rightarrow> goroutine list" where
  "loops_of ctx_done c monitorID = filter (\<lambda>g. polls monitorID (task g)) (running ctx_done c)"

text \<open>
  Lines 79 to 87 of \<open>Stop\<close>: the ids of the registry are collected, then \<open>stopWorker\<close>
  is called for each (Go's map order is arbitrary; the calls commute).
\<close>

definition cancel_all :: "Checker \<Rightarrow> Checker" where
  "cancel_all c = fold stopWorker (map fst (cancel c)) c"

text \<open>
  \<open>func (c *Checker) Stop\<close>: after the cancellations, \<open>c.wg.Wait()\<close> returns when every
  goroutine has run its \<open>wg.Done\<close>, that is, when the context of each is done.
  \<open>ctx_done\<close> holds of the parent contexts that are cancelled by the time of the call or
  while it waits; \<open>None\<close> is a call that never returns. \<open>Stop\<close> itself changes nothing
  after the cancellations.
\<close>

definition Stop :: "(nat \<Rightarrow> bool) \<Rightarrow> Checker \<Rightarrow> Checker option" where
  "Stop ctx_done c =
     (let c' = cancel_all c in
      if list_all (exits ctx_done) (goroutines c') then Some c' else None)"

text \<open>
  One tick of the goroutine \<open>h\<close>: a polling loop whose context is live probes with the
  values it captured; a goroutine that is gone, or whose context is done, starts no
  probe. The pruner writes no Check.
\<close>

definition loop_tick :: "(nat \<Rightarrow> bool) \<Rightarrow> (string \<Rightarrow> bool) \<Rightarrow> Checker \<Rightarrow> nat \<Rightarrow> tick_env \<Rightarrow> Store \<Rightarrow> Store \<times> event list" where
  "loop_tick ctx_done request_ok c h e s =
     (case find (\<lambda>g. handle g = h) (goroutines c) of
        None \<Rightarrow> (s, [])
      | Some g \<Rightarrow>
          (case task g of
             Pruner \<Rightarrow> (s, [])
           | Worker monitorID url interval timeout \<Rightarrow>
               (if exits ctx_done g then (s, []) else probe request_ok monitorID url e s)))"

text \<open>Some entry of the registry holds the cancel func of the goroutine.\<close>

definition in_registry :: "Checker \<Rightarrow> goroutine \<Rightarrow> bool" where
  "in_registry c g = (\<exists>monitorID. map_of (cancel c) monitorID = Some (handle g))"

text \<open>
  The registry describes the running polling loops: handles are unique and below
  \<open>fresh\<close>, as are the handles the registry holds; every running polling loop is the one
  registered under its monitor id; and a prune ticker has no cancel func, so it is
  neither cancelled nor in the registry.
\<close>

definition registered :: "Checker \<Rightarrow> goroutine \<Rightarrow> bool" where
  "registered c g =
     (case task g of
        Pruner \<Rightarrow> False
      | Worker monitorID url interval timeout \<Rightarrow>
          map_of (cancel c) monitorID = Some (handle g))"

definition is_pruner :: "goroutine \<Rightarrow> bool" where
  "is_pruner g = (task g = Pruner)"

definition registry_inv :: "(nat \<Rightarrow> bool) \<Rightarrow> Checker \<Rightarrow> bool" where
  "registry_inv ctx_done c =
     (distinct (map handle (goroutines c)) \<and>
      list_all (\<lambda>g. handle g < fresh c) (goroutines c) \<and>
      list_all (\<lambda>p. snd p < fresh c) (cancel c) \<and>
      list_all (\<lambda>g. exits ctx_done g \<or> is_pruner g \<or> registered c g) (goroutines c) \<and>
      list_all (\<lambda>g. is_pruner g \<longrightarrow> \<not> cancelled g \<and> handle g \<notin> snd ` set (cancel c))
        (goroutines c))"

section \<open>The alerter (internal/monitor/alerter.go)\<close>

text \<open>\<open>type Alerter struct\<close>; the client's fixed 10 s timeout shows as a failed POST.\<close>

record Alerter =
  webhookURL :: string

text \<open>
  What \<open>a.client.Post\<close> returns: an error, or a response with its status code
  (\<open>net/http\<close> reports a non-2xx status as a response, not as an error).
\<close>

datatype post_answer = PostFail | PostResp go_int

datatype post_error = PostError

text \<open>
  \<open>func (a *Alerter) post\<close>. \<open>json.Marshal\<close> of four strings does not fail. The status
  code of the response is not read.
\<close>

definition post :: "Alerter \<Rightarrow> AlertPayload \<Rightarrow> post_answer \<Rightarrow> post_error option \<times> event list" where
  "post a payload answer =
     (case answer of
        PostFail \<Rightarrow> (Some PostError, [HttpPost (webhookURL a) payload])
      | PostResp code \<Rightarrow> (None, [HttpPost (webhookURL a) payload]))"

text \<open>
  \<open>func (a *Alerter) Notify\<close>. \<open>now\<close> is the formatted \<open>time.Now()\<close>; \<open>webhook k\<close> is
  what the \<open>k\<close>-th POST of this call (from 0) meets.
\<close>

definition Notify :: "Alerter \<Rightarrow> Monitor \<Rightarrow> string \<Rightarrow> (nat \<Rightarrow> post_answer) \<Rightarrow> event list" where
  "Notify a m now webhook =
     (if webhookURL a = [] then []
      else
        (let payload =
               \<lparr>MonitorName = Name m, PayloadURL = URL m, Status = ''down'', Timestamp = now\<rparr>
         in Log LogAlertSending #
            (case post a payload (webhook 0) of
               (None, evs) \<Rightarrow> evs
             | (Some err, evs) \<Rightarrow>
                 evs @ [Log LogWebhookFailed, Sleep 5] @
                 (case post a payload (webhook 1) of
                    (Some err', evs') \<Rightarrow> evs' @ [Log LogRetryFailed]
                  | (None, evs') \<Rightarrow> evs' @ [Log LogRetrySucceeded]))))"

section \<open>Observations on event lists\<close>

fun is_post :: "event \<Rightarrow> bool" where
  "is_post (HttpPost url payload) = True"
| "is_post ev = False"

fun is_sleep :: "event \<Rightarrow> bool" where
  "is_sleep (Sleep n) = True"
| "is_sleep ev = False"

fun is_notify :: "event \<Rightarrow> bool" where
  "is_notify (CallNotify m) = True"
| "is_notify ev = False"

text \<open>The delivery attempts of a notification.\<close>

definition attempts :: "event list \<Rightarrow> nat" where
  "attempts evs = length (filter is_post evs)"

text \<open>The invariant of a written pair: at or above the threshold the state is down.\<close>

fun pair_ok :: "event \<Rightarrow> bool" where
  "pair_ok (CallUpdateState i st f) = (sint f < sint failureThreshold \<or> st = ''down'')"
| "pair_ok ev = True"

section \<open>Example inputs\<close>

text \<open>A monitor that is up after two consecutive failures, and a store holding it.\<close>

definition mon1 :: Monitor where
  "mon1 = \<lparr>ID = 1, Name = ''api'', URL = ''http://api.test/health'',
            IntervalSeconds = 60, TimeoutSeconds = 10,
            State = ''up'', ConsecutiveFailures = 2\<rparr>"

definition store1 :: Store where
  "store1 = \<lparr>monitors = [1 \<mapsto> mon1], checks = []\<rparr>"

text \<open>A monitor just created, never probed, and a store holding it.\<close>

definition mon0 :: Monitor where
  "mon0 = \<lparr>ID = 7, Name = ''new'', URL = ''http://new.test/'',
            IntervalSeconds = 60, TimeoutSeconds = 10,
            State = ''unknown'', ConsecutiveFailures = 0\<rparr>"

definition store0 :: Store where
  "store0 = \<lparr>monitors = [7 \<mapsto> mon0], checks = []\<rparr>"

text \<open>A tick whose probe meets a refused connection after 12 ms; the database works.\<close>

definition refused :: tick_env where
  "refused = \<lparr>server = (\<lambda>k. Fail), elapsed = 12,
               record_fails = False, get_fails = False, update_fails = False\<rparr>"

text \<open>The same tick with a database that refuses every statement.\<close>

definition db_busy :: tick_env where
  "db_busy = \<lparr>server = (\<lambda>k. Fail), elapsed = 12,
               record_fails = True, get_fails = True, update_fails = True\<rparr>"

text \<open>A tick answered with status 204 after 30 ms.\<close>

definition healthy :: tick_env where
  "healthy = \<lparr>server = (\<lambda>k. Final 204), elapsed = 30,
               record_fails = False, get_fails = False, update_fails = False\<rparr>"

text \<open>A server that answers every request with a redirect.\<close>

definition always_redirect :: "nat \<Rightarrow> hop" where
  "always_redirect k = Redirect 302"

text \<open>
  One instance of \<open>request_ok\<close>: \<open>url.Parse\<close> refuses a URL that holds an ASCII control
  character.
\<close>

definition no_control :: "string \<Rightarrow> bool" where
  "no_control url = list_all (\<lambda>ch. (32::nat) \<le> of_char ch \<and> of_char ch \<noteq> (127::nat)) url"

definition bad_url :: string where
  "bad_url = ''http://api.test/'' @ [CHR 0x7F]"

text \<open>A server that redirects ten times and answers 200 to the eleventh request.\<close>

definition ten_redirects :: "nat \<Rightarrow> hop" where
  "ten_redirects k = (if k < 10 then Redirect 302 else Final 200)"

text \<open>A server that redirects twice and answers 200 to the third request.\<close>

definition two_redirects :: "nat \<Rightarrow> hop" where
  "two_redirects k = (if k < 2 then Redirect 301 else Final 200)"

text \<open>A world in which no parent context is ever cancelled.\<close>

definition never_done :: "nat \<Rightarrow> bool" where
  "never_done ctx = False"

text \<open>The checker after \<open>Start\<close> on context 0 with one monitor listed.\<close>

definition started :: Checker where
  "started = snd (Start 0 (Inr [mon1]) NewChecker)"

text \<open>The checker after one \<open>Add\<close> of a monitor on context 0.\<close>

definition added_once :: Checker where
  "added_once = Add 0 mon1 NewChecker"

text \<open>The checker after \<open>Add\<close> was called twice for the same monitor on context 0.\<close>

definition added_twice :: Checker where
  "added_twice = Add 0 mon1 (Add 0 mon1 NewChecker)"

text \<open>
  The started checker after a later \<open>Add\<close> of another monitor on context 1, and a world
  in which only context 0, the one given to \<open>Start\<close>, is cancelled.
\<close>

definition serving :: Checker where
  "serving = Add 1 mon0 started"

definition start_done :: "nat \<Rightarrow> bool" where
  "start_done ctx = (ctx = 0)"

definition noon :: string where
  "noon = ''2026-01-01T12:00:00Z''"

definition hook :: Alerter where
  "hook = \<lparr>webhookURL = ''http://hooks.test/in''\<rparr>"

text \<open>A webhook endpoint that answers 500 to the first POST and 200 to the later ones.\<close>

definition flaky_500 :: "nat \<Rightarrow> post_answer" where
  "flaky_500 k = (if k = 0 then PostResp 500 else PostResp 200)"

text \<open>A webhook endpoint that cannot be reached at the first POST and answers 200 then.\<close>

definition flaky_conn :: "nat \<Rightarrow> post_answer" where
  "flaky_conn k = (if k = 0 then PostFail else PostResp 200)"


section \<open>Facts about the state decision and one tick\<close>

lemmas example_defs = store1_def mon1_def store0_def mon0_def refused_def db_busy_def
  healthy_def no_control_def bad_url_def

lemmas tick_defs = probe_def make_check_def Do_def CheckRedirect_def RecordCheck_def
  updateState_def Get_def UpdateState_def decide_def failureThreshold_def Let_def

text \<open>Adding one to a count below the largest 64-bit value does not wrap.\<close>

lemma sint_succ:
  assumes "sint (f::64 word) < 2^63 - 1" shows "sint (f + 1) = sint f + 1"
proof -
  have lo: "- (2 ^ 63) \<le> sint f" using sint_ge [of f] by simp
  have "sint (f + 1) = signed_take_bit 63 (sint f + 1)"
    by (simp add: sint_word_ariths)
  also have "\<dots> = sint f + 1"
    using lo assms by (intro signed_take_bit_int_eq_self) auto
  finally show ?thesis .
qed

lemma decide_up: "decide m True = (''up'', 0)"
  by (simp add: decide_def)

lemma decide_fail:
  "decide m False =
     (if 3 \<le> sint (ConsecutiveFailures m + 1) then ''down'' else State m,
      ConsecutiveFailures m + 1)"
  by (simp add: decide_def failureThreshold_def Let_def)

lemma updateState_found:
  assumes "monitors s i = Some m" "\<not> get_fails e" "\<not> update_fails e"
  shows "updateState i isUp e s =
     (s\<lparr>monitors := (monitors s)(i \<mapsto>
          m\<lparr>State := fst (decide m isUp), ConsecutiveFailures := snd (decide m isUp)\<rparr>)\<rparr>,
      [CallGet i, CallUpdateState i (fst (decide m isUp)) (snd (decide m isUp))])"
  using assms by (simp add: updateState_def Get_def UpdateState_def split: prod.splits)

text \<open>
  Claim C3. The decision inside \<open>updateState\<close>, for every current state and failure
  count (so also for the states unknown, up, down and the counts from 0): a probe that is
  up gives (up, 0); a failing probe gives the count plus one (Go's addition), with state
  down when the new count is at least 3 and the current state otherwise; below the
  largest 64-bit value the new count is the integer successor; a never-probed monitor
  (unknown, 0) goes to (unknown, 1). When the monitor is read and the write succeeds,
  \<open>updateState\<close> writes exactly this pair.
\<close>

theorem updateState_decision:
  assumes "monitors s i = Some m" and "\<not> get_fails e" and "\<not> update_fails e"
  shows "decide m True = (''up'', 0) \<and>
         decide m False =
           (if 3 \<le> sint (ConsecutiveFailures m + 1) then ''down'' else State m,
            ConsecutiveFailures m + 1) \<and>
         (0 \<le> sint (ConsecutiveFailures m) \<and> sint (ConsecutiveFailures m) < 2 ^ 63 - 1 \<longrightarrow>
            sint (snd (decide m False)) = sint (ConsecutiveFailures m) + 1) \<and>
         (State m = ''unknown'' \<and> ConsecutiveFailures m = 0 \<longrightarrow>
            decide m False = (''unknown'', 1)) \<and>
         updateState i isUp e s =
           (s\<lparr>monitors := (monitors s)(i \<mapsto>
               m\<lparr>State := fst (decide m isUp), ConsecutiveFailures := snd (decide m isUp)\<rparr>)\<rparr>,
            [CallGet i, CallUpdateState i (fst (decide m isUp)) (snd (decide m isUp))])"
  using updateState_found [OF assms] sint_succ [of "ConsecutiveFailures m"]
  by (simp add: decide_up decide_fail)

theorem updateState_decision_witness:
  "monitors store0 7 = Some mon0 \<and> \<not> get_fails refused \<and> \<not> update_fails refused \<and>
   State mon0 = ''unknown'' \<and> ConsecutiveFailures mon0 = 0 \<and>
   decide mon0 True = (''up'', 0) \<and>
   decide mon0 False = (''unknown'', 1) \<and>
   sint (snd (decide mon0 False)) = 1 \<and>
   snd (updateState 7 False refused store0) = [CallGet 7, CallUpdateState 7 ''unknown'' 1] \<and>
   monitors (fst (updateState 7 False refused store0)) 7 =
     Some (mon0\<lparr>State := ''unknown'', ConsecutiveFailures := 1\<rparr>)"
proof -
  have h1: "monitors store0 7 = Some mon0" by (simp add: example_defs)
  have h2: "\<not> get_fails refused" by (simp add: example_defs)
  have h3: "\<not> update_fails refused" by (simp add: example_defs)
  show ?thesis
    using h1 h2 h3 updateState_decision [OF h1 h2 h3, where isUp = False]
    by (simp add: example_defs)
qed

lemma pair_ok_decide: "pair_ok (CallUpdateState i (fst (decide m isUp)) (snd (decide m isUp)))"
  by (simp add: decide_def failureThreshold_def Let_def)

lemma updateState_events:
  "snd (updateState i isUp e s) = [CallGet i] \<or>
   (\<exists>m. monitors s i = Some m \<and>
      (snd (updateState i isUp e s) =
         [CallGet i, CallUpdateState i (fst (decide m isUp)) (snd (decide m isUp))] \<or>
       snd (updateState i isUp e s) =
         [CallGet i, CallUpdateState i (fst (decide m isUp)) (snd (decide m isUp)),
          Log LogUpdateState]))"
  by (auto simp: updateState_def Get_def UpdateState_def split: prod.splits option.splits sum.splits)

lemma updateState_pair_ok: "list_all pair_ok (snd (updateState i isUp e s))"
  using updateState_events [of i isUp e s] pair_ok_decide by auto

lemma updateState_no_record: "CallRecordCheck c \<notin> set (snd (updateState i isUp e s))"
  using updateState_events [of i isUp e s] by auto

lemma updateState_no_notify: "filter is_notify (snd (updateState i isUp e s)) = []"
  using updateState_events [of i isUp e s] by auto

lemma probe_events:
  "snd (probe request_ok i url e s) =
     (if \<not> request_ok url then [Log LogBuildRequest]
      else if record_fails e
        then [CallRecordCheck (make_check i (fst (Do (server e))) (elapsed e)), Log LogRecordCheck]
        else CallRecordCheck (make_check i (fst (Do (server e))) (elapsed e)) #
             snd (updateState i (IsUp (make_check i (fst (Do (server e))) (elapsed e))) e
                    (s\<lparr>checks := checks s @ [make_check i (fst (Do (server e))) (elapsed e)]\<rparr>)))"
  by (simp add: probe_def RecordCheck_def Let_def split: prod.splits)

lemma probe_pair_ok: "list_all pair_ok (snd (probe request_ok i url e s))"
  by (simp add: probe_events updateState_pair_ok)

lemma probe_no_notify: "filter is_notify (snd (probe request_ok i url e s)) = []"
  by (simp add: probe_events updateState_no_notify)

lemma make_check_fields:
  "MonitorID (make_check i r ms) = i \<and> ResponseTimeMs (make_check i r ms) = Some ms \<and>
   (IsUp (make_check i r ms) \<longleftrightarrow> (\<exists>code. r = Resp code \<and> 200 \<le> sint code \<and> sint code < 400)) \<and>
   (StatusCode (make_check i r ms) = None \<longleftrightarrow> r = HttpErr)"
  by (cases r) (simp_all add: make_check_def)

text \<open>
  Claim C4. Every Check the worker passes to \<open>RecordCheck\<close> is up exactly when
  \<open>client.Do\<close> returned a response whose status code lies in [200, 400); after a transport
  error or timeout it is not up, has no status code, and holds the elapsed milliseconds
  of the attempt as its response time. When the insert succeeds this Check is the row
  appended.
\<close>

theorem probe_check_classification:
  assumes "CallRecordCheck c \<in> set (snd (probe request_ok i url e s))"
  shows "c = make_check i (fst (Do (server e))) (elapsed e) \<and>
         (IsUp c \<longleftrightarrow>
            (\<exists>code. fst (Do (server e)) = Resp code \<and> 200 \<le> sint code \<and> sint code < 400)) \<and>
         (fst (Do (server e)) = HttpErr \<longrightarrow>
            \<not> IsUp c \<and> StatusCode c = None \<and> ResponseTimeMs c = Some (elapsed e)) \<and>
         (\<not> record_fails e \<longrightarrow> checks (fst (probe request_ok i url e s)) = checks s @ [c])"
proof -
  let ?k = "make_check i (fst (Do (server e))) (elapsed e)"
  have c: "c = ?k"
    using assms updateState_no_record by (auto simp: probe_events split: if_splits)
  have ok: "request_ok url"
    using assms by (auto simp: probe_events split: if_splits)
  have "\<not> record_fails e \<longrightarrow> checks (fst (probe request_ok i url e s)) = checks s @ [?k]"
    using ok
    by (auto simp: probe_def RecordCheck_def updateState_def Get_def UpdateState_def Let_def
             split: prod.splits option.splits sum.splits)
  then show ?thesis
    using c make_check_fields [of i "fst (Do (server e))" "elapsed e"] by auto
qed

theorem probe_check_classification_witness:
  "CallRecordCheck \<lparr>MonitorID = 1, StatusCode = None, ResponseTimeMs = Some 12, IsUp = False\<rparr>
     \<in> set (snd (probe no_control 1 (URL mon1) refused store1)) \<and>
   fst (Do (server refused)) = HttpErr \<and>
   \<not> record_fails refused \<and>
   checks (fst (probe no_control 1 (URL mon1) refused store1)) =
     [\<lparr>MonitorID = 1, StatusCode = None, ResponseTimeMs = Some 12, IsUp = False\<rparr>]"
proof -
  let ?k = "\<lparr>MonitorID = 1, StatusCode = None, ResponseTimeMs = Some 12, IsUp = False\<rparr>"
  have p: "snd (probe no_control 1 (URL mon1) refused store1) =
     [CallRecordCheck ?k, CallGet 1, CallUpdateState 1 ''down'' 3]"
    by (simp add: example_defs tick_defs)
  have h: "CallRecordCheck ?k \<in> set (snd (probe no_control 1 (URL mon1) refused store1))"
    unfolding p by simp
  have d: "fst (Do (server refused)) = HttpErr"
    by (simp add: refused_def Do_def)
  have r: "\<not> record_fails refused"
    by (simp add: refused_def)
  have "checks (fst (probe no_control 1 (URL mon1) refused store1)) = checks store1 @ [?k]"
    using probe_check_classification
      [where c = "?k" and request_ok = no_control and i = 1 and url = "URL mon1"
         and e = refused and s = store1, OF h] r
    by blast
  then have c: "checks (fst (probe no_control 1 (URL mon1) refused store1)) = [?k]"
    by (simp add: store1_def)
  from h d r c show ?thesis by blast
qed

lemma worker_loop_Cons:
  "worker_loop request_ok i url (e # es) s =
     (fst (worker_loop request_ok i url es (fst (probe request_ok i url e s))),
      snd (probe request_ok i url e s) @
      snd (worker_loop request_ok i url es (fst (probe request_ok i url e s))))"
  by (simp split: prod.splits)

lemma worker_loop_pair_ok: "list_all pair_ok (snd (worker_loop request_ok i url es s))"
proof (induction es arbitrary: s)
  case Nil
  show ?case by simp
next
  case (Cons e es)
  show ?case
    unfolding worker_loop_Cons using Cons.IH probe_pair_ok by simp
qed

lemma worker_loop_no_notify: "filter is_notify (snd (worker_loop request_ok i url es s)) = []"
proof (induction es arbitrary: s)
  case Nil
  show ?case by simp
next
  case (Cons e es)
  show ?case
    unfolding worker_loop_Cons using Cons.IH probe_no_notify by simp
qed

lemma UpdateState_atomic:
  assumes "monitors s i = Some m"
  shows "UpdateState fails i st f s = (Some DbError, s) \<or>
         (fst (UpdateState fails i st f s) = None \<and>
          monitors (snd (UpdateState fails i st f s)) i =
            Some (m\<lparr>State := st, ConsecutiveFailures := f\<rparr>))"
  using assms by (simp add: UpdateState_def)

lemma decide_ok:
  "sint (snd (decide m isUp)) < 3 \<or> fst (decide m isUp) = ''down''"
  by (simp add: decide_def failureThreshold_def Let_def)

lemma updateState_fst:
  "fst (updateState i isUp e s) = s \<or>
   (\<exists>m. monitors s i = Some m \<and>
      fst (updateState i isUp e s) =
        s\<lparr>monitors := (monitors s)(i \<mapsto>
             m\<lparr>State := fst (decide m isUp), ConsecutiveFailures := snd (decide m isUp)\<rparr>)\<rparr>)"
  by (auto simp: updateState_def Get_def UpdateState_def
           split: prod.splits option.splits sum.splits if_splits)

lemma updateState_rows:
  assumes "monitors (fst (updateState i isUp e s)) j = Some m'"
  shows "monitors s j = Some m' \<or> sint (ConsecutiveFailures m') < 3 \<or> State m' = ''down''"
proof -
  from updateState_fst [of i isUp e s] show ?thesis
  proof
    assume "fst (updateState i isUp e s) = s"
    with assms show ?thesis by simp
  next
    assume "\<exists>m. monitors s i = Some m \<and>
      fst (updateState i isUp e s) =
        s\<lparr>monitors := (monitors s)(i \<mapsto>
             m\<lparr>State := fst (decide m isUp), ConsecutiveFailures := snd (decide m isUp)\<rparr>)\<rparr>"
    then obtain m where m: "fst (updateState i isUp e s) =
        s\<lparr>monitors := (monitors s)(i \<mapsto>
             m\<lparr>State := fst (decide m isUp), ConsecutiveFailures := snd (decide m isUp)\<rparr>)\<rparr>"
      by blast
    show ?thesis
    proof (cases "j = i")
      case True
      with assms m have "m' = m\<lparr>State := fst (decide m isUp), ConsecutiveFailures := snd (decide m isUp)\<rparr>"
        by simp
      then show ?thesis using decide_ok [of m isUp] by auto
    next
      case False
      with assms m show ?thesis by simp
    qed
  qed
qed

lemma probe_fst:
  "fst (probe request_ok i url e s) =
     (if \<not> request_ok url \<or> record_fails e then s
      else fst (updateState i (IsUp (make_check i (fst (Do (server e))) (elapsed e))) e
                  (s\<lparr>checks := checks s @ [make_check i (fst (Do (server e))) (elapsed e)]\<rparr>)))"
  by (simp add: probe_def RecordCheck_def Let_def split: prod.splits)

lemma probe_rows:
  assumes "monitors (fst (probe request_ok i url e s)) j = Some m'"
  shows "monitors s j = Some m' \<or> sint (ConsecutiveFailures m') < 3 \<or> State m' = ''down''"
proof (cases "\<not> request_ok url \<or> record_fails e")
  case True
  with assms show ?thesis by (simp add: probe_fst)
next
  case False
  let ?k = "make_check i (fst (Do (server e))) (elapsed e)"
  from False assms
  have "monitors (fst (updateState i (IsUp ?k) e (s\<lparr>checks := checks s @ [?k]\<rparr>))) j = Some m'"
    by (simp add: probe_fst)
  from updateState_rows [OF this] show ?thesis by simp
qed

lemma worker_loop_rows:
  "monitors (fst (worker_loop request_ok i url es s)) j = Some m' \<Longrightarrow>
   monitors s j = Some m' \<or> sint (ConsecutiveFailures m') < 3 \<or> State m' = ''down''"
proof (induction es arbitrary: s)
  case Nil
  then show ?case by simp
next
  case (Cons e es)
  from Cons.prems
  have "monitors (fst (worker_loop request_ok i url es (fst (probe request_ok i url e s)))) j = Some m'"
    unfolding worker_loop_Cons by simp
  from Cons.IH [OF this] show ?case
    using probe_rows [of request_ok i url e s j m'] by blast
qed

text \<open>
  Claim C5. Every pair the worker passes to \<open>UpdateState\<close>, over any run of ticks,
  satisfies the invariant: a failure count of 3 or more comes with state down. One call of
  \<open>UpdateState\<close> either fails and leaves the row as it was, or sets both fields of the
  row together. So every row of the monitors table after the run is either as it was
  before or satisfies the invariant.
\<close>

theorem written_pair_invariant:
  "list_all pair_ok (snd (worker_loop request_ok i url es s)) \<and>
   (monitors s j = Some m \<longrightarrow>
      UpdateState fails j st f s = (Some DbError, s) \<or>
      fst (UpdateState fails j st f s) = None \<and>
      monitors (snd (UpdateState fails j st f s)) j =
        Some (m\<lparr>State := st, ConsecutiveFailures := f\<rparr>)) \<and>
   (monitors (fst (worker_loop request_ok i url es s)) j = Some m' \<longrightarrow>
      monitors s j = Some m' \<or> sint (ConsecutiveFailures m') < 3 \<or> State m' = ''down'')"
  using worker_loop_pair_ok [of request_ok i url es s]
    UpdateState_atomic [of s j m fails st f]
    worker_loop_rows [of request_ok i url es s j m']
  by blast

theorem written_pair_invariant_witness:
  "list_all pair_ok (snd (worker_loop no_control 1 (URL mon1) [refused, healthy] store1)) \<and>
   snd (worker_loop no_control 1 (URL mon1) [refused] store1) =
     [CallRecordCheck \<lparr>MonitorID = 1, StatusCode = None, ResponseTimeMs = Some 12, IsUp = False\<rparr>,
      CallGet 1, CallUpdateState 1 ''down'' 3] \<and>
   monitors store1 1 = Some mon1 \<and>
   fst (UpdateState False 1 ''down'' 3 store1) = None \<and>
   monitors (snd (UpdateState False 1 ''down'' 3 store1)) 1 =
     Some (mon1\<lparr>State := ''down'', ConsecutiveFailures := 3\<rparr>) \<and>
   monitors (fst (worker_loop no_control 1 (URL mon1) [refused] store1)) 1 =
     Some (mon1\<lparr>State := ''down'', ConsecutiveFailures := 3\<rparr>)"
  using written_pair_invariant [of no_control 1 "URL mon1" "[refused, healthy]" store1 1 mon1
      False "''down''" 3 "mon1\<lparr>State := ''down'', ConsecutiveFailures := 3\<rparr>"]
  by (simp add: example_defs tick_defs)

text \<open>
  Claim C7. A tick in which \<open>RecordCheck\<close> returns an error makes that one call on the
  Store and writes a log line: no \<open>Get\<close>, no \<open>UpdateState\<close>, no second \<open>RecordCheck\<close>;
  the store is as before. The loop then runs its remaining ticks from the unchanged
  store.
\<close>

theorem record_failure_abandons_tick:
  assumes "request_ok url" and "record_fails e"
  shows "probe request_ok i url e s =
           (s, [CallRecordCheck (make_check i (fst (Do (server e))) (elapsed e)),
                Log LogRecordCheck]) \<and>
         worker_loop request_ok i url (e # es) s =
           (fst (worker_loop request_ok i url es s),
            [CallRecordCheck (make_check i (fst (Do (server e))) (elapsed e)),
             Log LogRecordCheck] @ snd (worker_loop request_ok i url es s))"
proof -
  have p: "probe request_ok i url e s =
           (s, [CallRecordCheck (make_check i (fst (Do (server e))) (elapsed e)),
                Log LogRecordCheck])"
    using assms by (simp add: probe_def RecordCheck_def Let_def)
  show ?thesis
    unfolding worker_loop_Cons using p by simp
qed

theorem record_failure_abandons_tick_witness:
  "no_control (URL mon1) \<and> record_fails db_busy \<and>
   probe no_control 1 (URL mon1) db_busy store1 =
     (store1,
      [CallRecordCheck \<lparr>MonitorID = 1, StatusCode = None, ResponseTimeMs = Some 12, IsUp = False\<rparr>,
       Log LogRecordCheck]) \<and>
   monitors (fst (worker_loop no_control 1 (URL mon1) [db_busy, refused] store1)) 1 =
     Some (mon1\<lparr>State := ''down'', ConsecutiveFailures := 3\<rparr>)"
proof -
  have h1: "no_control (URL mon1)" by (simp add: example_defs)
  have h2: "record_fails db_busy" by (simp add: example_defs)
  show ?thesis
    using h1 h2 record_failure_abandons_tick [of no_control "URL mon1" db_busy 1 store1 "[refused]"]
    by (simp add: example_defs tick_defs)
qed

lemma probe_bad_request: "\<not> request_ok url \<Longrightarrow> probe request_ok i url e s = (s, [Log LogBuildRequest])"
  by (simp add: probe_def)

text \<open>
  Claim C10. When the request for the monitor's url cannot be built, a tick writes one
  log line and nothing else: no Check is recorded, no state or failure count is read or
  written. The url is fixed for the life of the loop, so every tick does the same and
  the store never changes.
\<close>

theorem bad_request_never_records:
  assumes "\<not> request_ok url"
  shows "probe request_ok i url e s = (s, [Log LogBuildRequest]) \<and>
         worker_loop request_ok i url es s = (s, replicate (length es) (Log LogBuildRequest))"
proof -
  have "worker_loop request_ok i url es s = (s, replicate (length es) (Log LogBuildRequest))"
  proof (induction es)
    case Nil
    show ?case by simp
  next
    case (Cons e es)
    show ?case
      unfolding worker_loop_Cons using Cons.IH probe_bad_request [of request_ok url] assms by simp
  qed
  then show ?thesis using probe_bad_request [of request_ok url] assms by simp
qed


theorem bad_request_never_records_witness:
  "\<not> no_control bad_url \<and>
   worker_loop no_control 1 bad_url [refused, healthy] store1 =
     (store1, [Log LogBuildRequest, Log LogBuildRequest])"
proof -
  have h: "\<not> no_control bad_url" by (simp add: example_defs)
  show ?thesis
    using h bad_request_never_records [of no_control bad_url 1 refused store1 "[refused, healthy]"]
    by (simp del: worker_loop.simps)
qed


text \<open>
  Claim C1. The worker makes no call of \<open>Alerter.Notify\<close>: \<open>updateState\<close> ends with the
  \<open>UpdateState\<close> write, and the Checker holds no Alerter. At a monitor that is up with two
  consecutive failures, a failing probe writes (down, 3), a transition into down, and the
  tick's calls are \<open>RecordCheck\<close>, \<open>Get\<close> and \<open>UpdateState\<close> only.
\<close>

theorem down_transition_without_notify:
  "State mon1 = ''up'' \<and>
   monitors (fst (probe no_control 1 (URL mon1) refused store1)) 1 =
     Some (mon1\<lparr>State := ''down'', ConsecutiveFailures := 3\<rparr>) \<and>
   snd (probe no_control 1 (URL mon1) refused store1) =
     [CallRecordCheck \<lparr>MonitorID = 1, StatusCode = None, ResponseTimeMs = Some 12, IsUp = False\<rparr>,
      CallGet 1, CallUpdateState 1 ''down'' 3] \<and>
   filter is_notify (snd (probe no_control 1 (URL mon1) refused store1)) = []"
  by (simp add: example_defs tick_defs)

section \<open>Facts about the alerter\<close>

lemma Notify_trace:
  assumes "webhookURL a \<noteq> []"
  shows "Notify a m now webhook =
     (case webhook 0 of
        PostResp code \<Rightarrow>
          [Log LogAlertSending,
           HttpPost (webhookURL a)
             \<lparr>MonitorName = Name m, PayloadURL = URL m, Status = ''down'', Timestamp = now\<rparr>]
      | PostFail \<Rightarrow>
          [Log LogAlertSending,
           HttpPost (webhookURL a)
             \<lparr>MonitorName = Name m, PayloadURL = URL m, Status = ''down'', Timestamp = now\<rparr>,
           Log LogWebhookFailed, Sleep 5,
           HttpPost (webhookURL a)
             \<lparr>MonitorName = Name m, PayloadURL = URL m, Status = ''down'', Timestamp = now\<rparr>,
           Log (case webhook 1 of PostFail \<Rightarrow> LogRetryFailed
                | PostResp code \<Rightarrow> LogRetrySucceeded)])"
  using assms by (simp add: Notify_def post_def Let_def split: post_answer.splits)

text \<open>
  Claim C2, as the code has it. With a webhook URL configured, \<open>Notify\<close> makes at most two
  delivery attempts. Exactly when the first POST returns an error (the request could not
  be completed), it logs, sleeps a fixed 5 seconds and POSTs once more; the outcome of
  that second attempt is logged and nothing follows, whether it failed or not. When the
  first POST returns a response, of whatever status code, \<open>Notify\<close> makes that one
  attempt only: \<open>post\<close> does not read the status code.
\<close>

theorem notify_attempts:
  assumes "webhookURL a \<noteq> []"
  shows "attempts (Notify a m now webhook) \<le> 2 \<and>
    (webhook 0 = PostFail \<longrightarrow>
       Notify a m now webhook =
         [Log LogAlertSending,
          HttpPost (webhookURL a)
            \<lparr>MonitorName = Name m, PayloadURL = URL m, Status = ''down'', Timestamp = now\<rparr>,
          Log LogWebhookFailed, Sleep 5,
          HttpPost (webhookURL a)
            \<lparr>MonitorName = Name m, PayloadURL = URL m, Status = ''down'', Timestamp = now\<rparr>,
          Log (if webhook 1 = PostFail then LogRetryFailed else LogRetrySucceeded)] \<and>
       attempts (Notify a m now webhook) = 2) \<and>
    (webhook 0 \<noteq> PostFail \<longrightarrow>
       Notify a m now webhook =
         [Log LogAlertSending,
          HttpPost (webhookURL a)
            \<lparr>MonitorName = Name m, PayloadURL = URL m, Status = ''down'', Timestamp = now\<rparr>] \<and>
       attempts (Notify a m now webhook) = 1)"
proof (cases "webhook 0")
  case PostFail
  then show ?thesis
    using Notify_trace [OF assms, of m now webhook]
    by (cases "webhook 1") (simp_all add: attempts_def)
next
  case (PostResp code)
  then show ?thesis
    using Notify_trace [OF assms, of m now webhook]
    by (simp add: attempts_def)
qed

theorem notify_attempts_witness:
  "webhookURL hook \<noteq> [] \<and> flaky_conn 0 = PostFail \<and>
   attempts (Notify hook mon1 noon flaky_conn) = 2 \<and>
   Notify hook mon1 noon flaky_conn =
     [Log LogAlertSending,
      HttpPost ''http://hooks.test/in''
        \<lparr>MonitorName = ''api'', PayloadURL = ''http://api.test/health'', Status = ''down'',
         Timestamp = noon\<rparr>,
      Log LogWebhookFailed, Sleep 5,
      HttpPost ''http://hooks.test/in''
        \<lparr>MonitorName = ''api'', PayloadURL = ''http://api.test/health'', Status = ''down'',
         Timestamp = noon\<rparr>,
      Log LogRetrySucceeded]"
proof -
  have h: "webhookURL hook \<noteq> []" by (simp add: hook_def)
  have f: "flaky_conn 0 = PostFail" by (simp add: flaky_conn_def)
  have g: "flaky_conn 1 \<noteq> PostFail" by (simp add: flaky_conn_def)
  have "Notify hook mon1 noon flaky_conn =
         [Log LogAlertSending,
          HttpPost (webhookURL hook)
            \<lparr>MonitorName = Name mon1, PayloadURL = URL mon1, Status = ''down'', Timestamp = noon\<rparr>,
          Log LogWebhookFailed, Sleep 5,
          HttpPost (webhookURL hook)
            \<lparr>MonitorName = Name mon1, PayloadURL = URL mon1, Status = ''down'', Timestamp = noon\<rparr>,
          Log (if flaky_conn 1 = PostFail then LogRetryFailed else LogRetrySucceeded)] \<and>
       attempts (Notify hook mon1 noon flaky_conn) = 2"
    using notify_attempts [where a = hook and m = mon1 and now = noon and webhook = flaky_conn, OF h] f
    by blast
  then show ?thesis
    using h f g by (simp add: hook_def mon1_def attempts_def)
qed

text \<open>
  An endpoint that answers HTTP 500 to the first POST: one attempt, no sleep, no retry.
\<close>

theorem notify_http_500_counterexample:
  "flaky_500 0 = PostResp 500 \<and>
   Notify hook mon1 noon flaky_500 =
     [Log LogAlertSending,
      HttpPost ''http://hooks.test/in''
        \<lparr>MonitorName = ''api'', PayloadURL = ''http://api.test/health'', Status = ''down'',
         Timestamp = noon\<rparr>] \<and>
   attempts (Notify hook mon1 noon flaky_500) \<noteq> 2 \<and>
   filter is_sleep (Notify hook mon1 noon flaky_500) = []"
  by (simp add: Notify_def post_def hook_def mon1_def flaky_500_def attempts_def)

section \<open>Facts about the probe's redirect policy\<close>

lemma Do_from_unfold:
  "Do_from srv via =
     (case srv (length via) of
        Fail \<Rightarrow> (HttpErr, via @ [length via])
      | Final code \<Rightarrow> (Resp code, via @ [length via])
      | Redirect code \<Rightarrow>
          (if 9 \<le> length via then (Resp code, via @ [length via])
           else Do_from srv (via @ [length via])))"
  by (subst Do_from.simps) (simp add: CheckRedirect_def Let_def split: hop.splits)

lemma Do_from_length:
  "length via < 10 \<Longrightarrow> length (snd (Do_from srv via)) \<le> 10"
proof (induction "9 - length via" arbitrary: via)
  case 0
  then have l: "length via = 9" by simp
  then show ?case
    by (subst Do_from_unfold) (simp split: hop.splits)
next
  case (Suc d)
  then have l: "length via < 9" by simp
  have "length (snd (Do_from srv (via @ [length via]))) \<le> 10"
    using Suc l by (intro Suc.hyps(1)) auto
  with l show ?case
    by (subst Do_from_unfold) (simp split: hop.splits)
qed

lemma Do_from_chain:
  assumes "\<forall>k<n. \<exists>c. srv k = Redirect c" and "n \<le> 9" and "j \<le> n"
  shows "Do_from srv [0..<j] = Do_from srv [0..<n]"
  using assms(3)
proof (induction "n - j" arbitrary: j)
  case 0
  then show ?case by simp
next
  case (Suc d)
  then have j: "j < n" by simp
  with assms(1) obtain c where c: "srv j = Redirect c" by blast
  from j assms(2) have "\<not> 9 \<le> j" by simp
  with c have "Do_from srv [0..<j] = Do_from srv ([0..<j] @ [j])"
    by (subst Do_from_unfold) simp
  also have "[0..<j] @ [j] = [0..<Suc j]" by simp
  also have "Do_from srv [0..<Suc j] = Do_from srv [0..<n]"
    using Suc j by (intro Suc.hyps(1)) auto
  finally show ?case .
qed

text \<open>
  Claim C6, as the code has it. \<open>CheckRedirect\<close> stops at \<open>len(via) >= 10\<close>, and \<open>via\<close>
  holds the requests made already, the first one included. So a probe sends at most ten
  requests: it follows up to nine redirects, a chain of fewer than ten redirects is
  followed to its end, and the tenth redirect response in a row is returned as the final
  response, with no error.
\<close>

theorem redirect_cap:
  "length (snd (Do srv)) \<le> 10 \<and>
   (n \<le> 9 \<and> (\<forall>k<n. \<exists>c. srv k = Redirect c) \<and> srv n = Final code \<longrightarrow>
      Do srv = (Resp code, [0..<Suc n])) \<and>
   ((\<forall>k<9. \<exists>c. srv k = Redirect c) \<and> srv 9 = Redirect code \<longrightarrow>
      Do srv = (Resp code, [0..<10]))"
proof -
  have a: "length (snd (Do srv)) \<le> 10"
    using Do_from_length [of "[]" srv] by (simp add: Do_def)
  have b: "Do srv = (Resp code, [0..<Suc n])"
    if "n \<le> 9" "\<forall>k<n. \<exists>c. srv k = Redirect c" "srv n = Final code"
  proof -
    have "Do srv = Do_from srv [0..<n]"
      using Do_from_chain [of n srv 0] that by (simp add: Do_def)
    also have "\<dots> = (Resp code, [0..<Suc n])"
      using that(3) by (subst Do_from_unfold) simp
    finally show ?thesis .
  qed
  have c: "Do srv = (Resp code, [0..<10])"
    if "\<forall>k<9. \<exists>c. srv k = Redirect c" "srv 9 = Redirect code"
  proof -
    have "Do srv = Do_from srv [0..<9]"
      using Do_from_chain [of 9 srv 0] that by (simp add: Do_def)
    also have "\<dots> = (Resp code, [0..<9] @ [9])"
      using that(2) by (subst Do_from_unfold) simp
    also have "[0..<9] @ [9::nat] = [0..<10]"
      by (simp add: upt_rec)
    finally show ?thesis .
  qed
  from a b c show ?thesis by blast
qed

theorem redirect_cap_witness:
  "Do two_redirects = (Resp 200, [0, 1, 2]) \<and>
   Do ten_redirects = (Resp 302, [0, 1, 2, 3, 4, 5, 6, 7, 8, 9]) \<and>
   length (snd (Do ten_redirects)) \<le> 10"
proof -
  have a1: "\<forall>k<2. \<exists>c. two_redirects k = Redirect c" by (simp add: two_redirects_def)
  have a2: "two_redirects 2 = Final 200" by (simp add: two_redirects_def)
  have b1: "\<forall>k<9. \<exists>c. ten_redirects k = Redirect c" by (simp add: ten_redirects_def)
  have b2: "ten_redirects 9 = Redirect 302" by (simp add: ten_redirects_def)
  have a: "Do two_redirects = (Resp 200, [0..<Suc 2])"
    using redirect_cap [of two_redirects 2 200] a1 a2 by simp
  have b: "Do ten_redirects = (Resp 302, [0..<10]) \<and> length (snd (Do ten_redirects)) \<le> 10"
    using redirect_cap [of ten_redirects 0 302] b1 b2 by blast
  have l1: "[0..<Suc 2] = [0, 1, 2]" by (simp add: upt_rec)
  have l2: "[0..<10] = [0, 1, 2, 3, 4, 5, 6, 7, 8, 9::nat]" by (simp add: upt_rec)
  from a b show ?thesis unfolding l1 l2 by simp
qed

text \<open>
  A server that redirects ten times before it answers 200: the probe returns the tenth
  redirect response after ten requests and never sends an eleventh.
\<close>

theorem redirect_cap_counterexample:
  "Do ten_redirects = (Resp 302, [0, 1, 2, 3, 4, 5, 6, 7, 8, 9]) \<and>
   Do ten_redirects \<noteq> (Resp 200, [0, 1, 2, 3, 4, 5, 6, 7, 8, 9, 10])"
  by (simp add: Do_def ten_redirects_def CheckRedirect_def)

section \<open>Facts about the supervisor\<close>

lemma cancel_stopWorker: "cancel (stopWorker k c) = AList.delete k (cancel c)"
  by (simp add: stopWorker_def delete_notin_dom map_of_eq_None_iff split: option.splits)

lemma map_of_stopWorker:
  "map_of (cancel (stopWorker k c)) i = (if i = k then None else map_of (cancel c) i)"
  by (simp add: cancel_stopWorker delete_conv')

lemma fresh_stopWorker: "fresh (stopWorker k c) = fresh c"
  by (simp add: stopWorker_def split: option.splits)

lemma handles_stopWorker: "map handle (goroutines (stopWorker k c)) = map handle (goroutines c)"
  by (simp add: stopWorker_def comp_def split: option.splits)

lemma goroutines_stopWorker_eq:
  "goroutines (stopWorker k c) =
     map (\<lambda>g. if map_of (cancel c) k = Some (handle g) then g\<lparr>cancelled := True\<rparr> else g)
       (goroutines c)"
proof (cases "map_of (cancel c) k")
  case None
  then show ?thesis by (simp add: stopWorker_def)
next
  case (Some h)
  have "(handle g = h) = (h = handle g)" for g :: goroutine by auto
  with Some show ?thesis by (simp add: stopWorker_def)
qed

lemma goroutines_stopWorker:
  "g' \<in> set (goroutines (stopWorker k c)) \<Longrightarrow>
   \<exists>g \<in> set (goroutines c). g' = g \<or>
      (g' = g\<lparr>cancelled := True\<rparr> \<and> map_of (cancel c) k = Some (handle g))"
  by (auto simp: stopWorker_def split: option.splits if_splits)

lemma stopWorker_cancels:
  assumes "map_of (cancel c) k = Some h" and "g \<in> set (goroutines (stopWorker k c))"
    and "handle g = h"
  shows "cancelled g"
proof -
  have "goroutines (stopWorker k c) =
          map (\<lambda>g. if handle g = h then g\<lparr>cancelled := True\<rparr> else g) (goroutines c)"
    using assms(1) by (simp add: stopWorker_def)
  with assms(2)
  have "g \<in> (\<lambda>g. if handle g = h then g\<lparr>cancelled := True\<rparr> else g) ` set (goroutines c)"
    by simp
  then obtain g0 where "g = (if handle g0 = h then g0\<lparr>cancelled := True\<rparr> else g0)"
    by blast
  with assms(3) show ?thesis by (cases "handle g0 = h") auto
qed

lemma stopWorker_keeps_cancelled:
  "\<forall>g \<in> set (goroutines c). handle g = h \<longrightarrow> cancelled g \<Longrightarrow>
   \<forall>g \<in> set (goroutines (stopWorker k c)). handle g = h \<longrightarrow> cancelled g"
  by (auto simp: stopWorker_def split: option.splits if_splits)

lemma map_of_in_values: "map_of al k = Some h \<Longrightarrow> h \<in> snd ` set al"
  by (metis map_of_SomeD snd_conv image_eqI)

lemma values_delete: "snd ` set (AList.delete k al) \<subseteq> snd ` set al"
  by (auto simp: AList.delete_eq)

lemma values_update: "snd ` set (AList.update k v al) \<subseteq> insert v (snd ` set al)"
  by (induction al) auto

lemma in_registry_values: "in_registry c g \<Longrightarrow> handle g \<in> snd ` set (cancel c)"
  unfolding in_registry_def using map_of_in_values by fastforce

lemma registered_in_registry: "registered c g \<Longrightarrow> in_registry c g"
  by (auto simp: registered_def in_registry_def split: task.splits)

text \<open>The five parts of the invariant, one by one.\<close>

lemma registry_invD:
  assumes "registry_inv dn c"
  shows "distinct (map handle (goroutines c))"
    and "\<forall>g \<in> set (goroutines c). handle g < fresh c"
    and "\<forall>h \<in> snd ` set (cancel c). h < fresh c"
    and "\<forall>g \<in> set (goroutines c). exits dn g \<or> is_pruner g \<or> registered c g"
    and "\<forall>g \<in> set (goroutines c). is_pruner g \<longrightarrow>
           \<not> cancelled g \<and> handle g \<notin> snd ` set (cancel c)"
  using assms by (auto simp: registry_inv_def list_all_iff)

lemma registry_invI:
  assumes "distinct (map handle (goroutines c))"
    and "\<forall>g \<in> set (goroutines c). handle g < fresh c"
    and "\<forall>h \<in> snd ` set (cancel c). h < fresh c"
    and "\<forall>g \<in> set (goroutines c). exits dn g \<or> is_pruner g \<or> registered c g"
    and "\<forall>g \<in> set (goroutines c). is_pruner g \<longrightarrow>
           \<not> cancelled g \<and> handle g \<notin> snd ` set (cancel c)"
  shows "registry_inv dn c"
  using assms by (auto simp: registry_inv_def list_all_iff)

lemma registry_inv_stopWorker:
  assumes "registry_inv dn c"
  shows "registry_inv dn (stopWorker k c)"
proof (rule registry_invI)
  note inv = registry_invD [OF assms]
  show "distinct (map handle (goroutines (stopWorker k c)))"
    using inv(1) by (simp add: handles_stopWorker)
  have hs: "handle ` set (goroutines (stopWorker k c)) = handle ` set (goroutines c)"
    using handles_stopWorker [of k c] by (metis set_map)
  show "\<forall>g \<in> set (goroutines (stopWorker k c)). handle g < fresh (stopWorker k c)"
  proof
    fix g assume "g \<in> set (goroutines (stopWorker k c))"
    then have "handle g \<in> handle ` set (goroutines c)" using hs by blast
    with inv(2) show "handle g < fresh (stopWorker k c)" by (auto simp: fresh_stopWorker)
  qed
  have sub: "snd ` set (cancel (stopWorker k c)) \<subseteq> snd ` set (cancel c)"
    by (simp add: cancel_stopWorker values_delete)
  show "\<forall>h \<in> snd ` set (cancel (stopWorker k c)). h < fresh (stopWorker k c)"
    using inv(3) sub unfolding fresh_stopWorker by blast
  show "\<forall>g' \<in> set (goroutines (stopWorker k c)).
          exits dn g' \<or> is_pruner g' \<or> registered (stopWorker k c) g'"
  proof
    fix g' assume g': "g' \<in> set (goroutines (stopWorker k c))"
    from goroutines_stopWorker [OF g'] obtain g where g: "g \<in> set (goroutines c)"
      and or: "g' = g \<or> (g' = g\<lparr>cancelled := True\<rparr> \<and> map_of (cancel c) k = Some (handle g))"
      by blast
    from inv(4) g have old: "exits dn g \<or> is_pruner g \<or> registered c g" by blast
    from or show "exits dn g' \<or> is_pruner g' \<or> registered (stopWorker k c) g'"
    proof
      assume eq: "g' = g"
      show ?thesis
      proof (cases "exits dn g \<or> is_pruner g")
        case True
        with eq show ?thesis by blast
      next
        case False
        with old have reg: "registered c g" by blast
        then obtain i url iv tm where t: "task g = Worker i url iv tm"
          and m: "map_of (cancel c) i = Some (handle g)"
          by (auto simp: registered_def split: task.splits)
        show ?thesis
        proof (cases "i = k")
          case True
          with m g' eq have "cancelled g'"
            using stopWorker_cancels [of c k "handle g" g'] by simp
          then show ?thesis by (simp add: exits_def)
        next
          case False
          with t m eq show ?thesis
            by (simp add: registered_def map_of_stopWorker)
        qed
      qed
    next
      assume "g' = g\<lparr>cancelled := True\<rparr> \<and> map_of (cancel c) k = Some (handle g)"
      then show ?thesis by (simp add: exits_def)
    qed
  qed
  show "\<forall>g' \<in> set (goroutines (stopWorker k c)). is_pruner g' \<longrightarrow>
          \<not> cancelled g' \<and> handle g' \<notin> snd ` set (cancel (stopWorker k c))"
  proof (intro ballI impI)
    fix g' assume g': "g' \<in> set (goroutines (stopWorker k c))" and p: "is_pruner g'"
    from goroutines_stopWorker [OF g'] obtain g where g: "g \<in> set (goroutines c)"
      and or: "g' = g \<or> (g' = g\<lparr>cancelled := True\<rparr> \<and> map_of (cancel c) k = Some (handle g))"
      by blast
    from p or have pg: "is_pruner g" by (auto simp: is_pruner_def)
    with inv(5) g have ok: "\<not> cancelled g" "handle g \<notin> snd ` set (cancel c)" by blast+
    from ok(2) have "map_of (cancel c) k \<noteq> Some (handle g)"
      using map_of_in_values by fastforce
    with or have "g' = g" by blast
    with ok sub show "\<not> cancelled g' \<and> handle g' \<notin> snd ` set (cancel (stopWorker k c))"
      by blast
  qed
qed

lemma registry_inv_startWorker:
  assumes "registry_inv dn c" and "map_of (cancel c) (ID m) = None"
  shows "registry_inv dn (startWorker ctx m c)"
proof (rule registry_invI)
  note inv = registry_invD [OF assms(1)]
  let ?new = "\<lparr>handle = fresh c,
               task = Worker (ID m) (URL m) (IntervalSeconds m) (TimeoutSeconds m),
               parent = ctx, cancelled = False\<rparr>"
  have gs: "goroutines (startWorker ctx m c) = goroutines c @ [?new]"
    by (simp add: startWorker_def)
  have fr: "fresh (startWorker ctx m c) = Suc (fresh c)"
    by (simp add: startWorker_def)
  have cn: "cancel (startWorker ctx m c) = AList.update (ID m) (fresh c) (cancel c)"
    by (simp add: startWorker_def)
  from inv(2) have nf: "fresh c \<notin> handle ` set (goroutines c)" by auto
  show "distinct (map handle (goroutines (startWorker ctx m c)))"
    using inv(1) nf by (simp add: gs)
  show "\<forall>g \<in> set (goroutines (startWorker ctx m c)). handle g < fresh (startWorker ctx m c)"
    using inv(2) by (auto simp: gs fr)
  have vs: "snd ` set (cancel (startWorker ctx m c)) \<subseteq> insert (fresh c) (snd ` set (cancel c))"
    unfolding cn by (rule values_update)
  show "\<forall>h \<in> snd ` set (cancel (startWorker ctx m c)). h < fresh (startWorker ctx m c)"
  proof
    fix h assume "h \<in> snd ` set (cancel (startWorker ctx m c))"
    with vs have "h = fresh c \<or> h \<in> snd ` set (cancel c)" by blast
    with inv(3) show "h < fresh (startWorker ctx m c)" by (auto simp: fr)
  qed
  have keep: "registered c g \<Longrightarrow> registered (startWorker ctx m c) g" for g
    using assms(2)
    by (auto simp: registered_def startWorker_def update_conv' split: task.splits)
  have new: "registered (startWorker ctx m c) ?new"
    by (simp add: registered_def startWorker_def update_conv')
  show "\<forall>g \<in> set (goroutines (startWorker ctx m c)).
          exits dn g \<or> is_pruner g \<or> registered (startWorker ctx m c) g"
    using inv(4) keep new by (auto simp: gs)
  show "\<forall>g \<in> set (goroutines (startWorker ctx m c)). is_pruner g \<longrightarrow>
          \<not> cancelled g \<and> handle g \<notin> snd ` set (cancel (startWorker ctx m c))"
  proof (intro ballI impI)
    fix g assume g: "g \<in> set (goroutines (startWorker ctx m c))" and p: "is_pruner g"
    from g p have old: "g \<in> set (goroutines c)" by (auto simp: gs is_pruner_def)
    with inv(5) p have ok: "\<not> cancelled g" "handle g \<notin> snd ` set (cancel c)" by blast+
    from inv(2) old have "handle g \<noteq> fresh c" by auto
    with ok vs show "\<not> cancelled g \<and> handle g \<notin> snd ` set (cancel (startWorker ctx m c))"
      by blast
  qed
qed

lemma registry_inv_NewChecker: "registry_inv dn NewChecker"
  by (simp add: registry_inv_def NewChecker_def)

lemma registry_inv_Restart: "registry_inv dn c \<Longrightarrow> registry_inv dn (Restart ctx m c)"
  unfolding Restart_def
  by (intro registry_inv_startWorker registry_inv_stopWorker) (simp_all add: map_of_stopWorker)

lemma registry_inv_Remove: "registry_inv dn c \<Longrightarrow> registry_inv dn (Remove k c)"
  unfolding Remove_def by (rule registry_inv_stopWorker)




lemma map_of_startWorker:
  "map_of (cancel (startWorker ctx m c)) i =
     (if i = ID m then Some (fresh c) else map_of (cancel c) i)"
  by (simp add: startWorker_def update_conv')

lemma registry_inv_fold_startWorker:
  "registry_inv dn c \<Longrightarrow> distinct (map ID ms) \<Longrightarrow>
   \<forall>m \<in> set ms. map_of (cancel c) (ID m) = None \<Longrightarrow>
   registry_inv dn (fold (startWorker ctx) ms c)"
proof (induction ms arbitrary: c)
  case Nil
  then show ?case by simp
next
  case (Cons m ms)
  have 1: "registry_inv dn (startWorker ctx m c)"
    using Cons.prems by (intro registry_inv_startWorker) auto
  from Cons.prems(2) have "ID m \<notin> ID ` set ms" by simp
  then have ne: "\<forall>m' \<in> set ms. ID m' \<noteq> ID m" by (metis imageI)
  have 2: "\<forall>m' \<in> set ms. map_of (cancel (startWorker ctx m c)) (ID m') = None"
    using Cons.prems(3) ne by (simp add: map_of_startWorker)
  from Cons.IH [OF 1 _ 2] Cons.prems(2) show ?case by simp
qed

lemma registry_inv_add_pruner:
  assumes "registry_inv dn c"
  shows "registry_inv dn
     (c\<lparr>goroutines := goroutines c @
            [\<lparr>handle = fresh c, task = Pruner, parent = ctx, cancelled = False\<rparr>],
        fresh := Suc (fresh c)\<rparr>)"
    (is "registry_inv dn ?c'")
proof (rule registry_invI)
  note inv = registry_invD [OF assms]
  from inv(2) have nf: "fresh c \<notin> handle ` set (goroutines c)" by auto
  from inv(3) have nv: "fresh c \<notin> snd ` set (cancel c)" by auto
  show "distinct (map handle (goroutines ?c'))"
    using inv(1) nf by simp
  show "\<forall>g \<in> set (goroutines ?c'). handle g < fresh ?c'"
    using inv(2) by auto
  show "\<forall>h \<in> snd ` set (cancel ?c'). h < fresh ?c'"
    using inv(3) by auto
  have reg: "registered ?c' g = registered c g" for g
    by (simp add: registered_def split: task.splits)
  show "\<forall>g \<in> set (goroutines ?c'). exits dn g \<or> is_pruner g \<or> registered ?c' g"
    using inv(4) unfolding reg by (auto simp: is_pruner_def)
  show "\<forall>g \<in> set (goroutines ?c'). is_pruner g \<longrightarrow>
          \<not> cancelled g \<and> handle g \<notin> snd ` set (cancel ?c')"
    using inv(5) nv by auto
qed

lemma registry_inv_Start:
  assumes "registry_inv dn c" and "distinct (map ID ms)"
    and "\<forall>m \<in> set ms. map_of (cancel c) (ID m) = None"
  shows "registry_inv dn (snd (Start ctx (Inr ms) c))"
  using registry_inv_add_pruner [OF registry_inv_fold_startWorker [OF assms]]
  by (simp add: Start_def Let_def)







lemmas supervisor_defs = started_def added_once_def added_twice_def serving_def start_done_def
  Start_def Add_def startWorker_def stopWorker_def NewChecker_def mon1_def mon0_def
  never_done_def loops_of_def running_def exits_def registry_inv_def registered_def
  is_pruner_def cancel_all_def Stop_def Let_def



lemma cancel_fold_stopWorker:
  "cancel (fold stopWorker ids c) = fold AList.delete ids (cancel c)"
  by (induction ids arbitrary: c) (simp_all add: cancel_stopWorker)

lemma keys_fold_delete:
  "fst ` set (fold AList.delete ids al) = fst ` set al - set ids"
proof (induction ids arbitrary: al)
  case Nil
  show ?case by simp
next
  case (Cons k ids)
  have "fst ` set (AList.delete k al) = fst ` set al - {k}"
    by (auto simp: AList.delete_eq)
  with Cons show ?case by auto
qed

lemma cancel_cancel_all: "cancel (cancel_all c) = []"
proof -
  have "fst ` set (cancel (cancel_all c)) = {}"
    by (simp add: cancel_all_def cancel_fold_stopWorker keys_fold_delete)
  then show ?thesis by simp
qed

lemma registry_inv_fold_stopWorker:
  "registry_inv dn c \<Longrightarrow> registry_inv dn (fold stopWorker ids c)"
  by (induction ids arbitrary: c) (simp_all add: registry_inv_stopWorker)

lemma stopWorker_then:
  "(let g' = (if map_of (cancel c) k = Some (handle g) then g\<lparr>cancelled := True\<rparr> else g)
    in if \<exists>i \<in> set ids. map_of (cancel (stopWorker k c)) i = Some (handle g')
       then g'\<lparr>cancelled := True\<rparr> else g') =
   (if \<exists>i \<in> set (k # ids). map_of (cancel c) i = Some (handle g)
    then g\<lparr>cancelled := True\<rparr> else g)"
proof (cases "map_of (cancel c) k = Some (handle g)")
  case True
  then show ?thesis by (simp add: Let_def)
next
  case False
  have "(\<exists>i \<in> set ids. map_of (cancel (stopWorker k c)) i = Some (handle g)) =
        (\<exists>i \<in> set ids. map_of (cancel c) i = Some (handle g))"
    using False by (auto simp: map_of_stopWorker)
  with False show ?thesis by (simp add: Let_def)
qed

lemma goroutines_fold_stopWorker:
  "goroutines (fold stopWorker ids c) =
     map (\<lambda>g. if \<exists>i \<in> set ids. map_of (cancel c) i = Some (handle g)
              then g\<lparr>cancelled := True\<rparr> else g)
       (goroutines c)"
proof (induction ids arbitrary: c)
  case Nil
  show ?case by simp
next
  case (Cons k ids)
  have "goroutines (fold stopWorker (k # ids) c) =
          goroutines (fold stopWorker ids (stopWorker k c))"
    by simp
  also have "\<dots> =
     map (\<lambda>g. if \<exists>i \<in> set ids. map_of (cancel (stopWorker k c)) i = Some (handle g)
              then g\<lparr>cancelled := True\<rparr> else g)
       (goroutines (stopWorker k c))"
    by (rule Cons.IH)
  also have "\<dots> =
     map (\<lambda>g. let g' = (if map_of (cancel c) k = Some (handle g)
                        then g\<lparr>cancelled := True\<rparr> else g)
              in if \<exists>i \<in> set ids. map_of (cancel (stopWorker k c)) i = Some (handle g')
                 then g'\<lparr>cancelled := True\<rparr> else g')
       (goroutines c)"
    unfolding goroutines_stopWorker_eq by (simp add: comp_def Let_def)
  also have "\<dots> =
     map (\<lambda>g. if \<exists>i \<in> set (k # ids). map_of (cancel c) i = Some (handle g)
              then g\<lparr>cancelled := True\<rparr> else g)
       (goroutines c)"
    unfolding stopWorker_then ..
  finally show ?case .
qed

lemma goroutines_cancel_all:
  "goroutines (cancel_all c) =
     map (\<lambda>g. if in_registry c g then g\<lparr>cancelled := True\<rparr> else g) (goroutines c)"
proof -
  have "(\<exists>i \<in> set (map fst (cancel c)). map_of (cancel c) i = Some h) =
        (\<exists>i. map_of (cancel c) i = Some h)" for h
    by (metis map_of_eq_None_iff option.distinct(1) set_map)
  then show ?thesis
    by (simp add: cancel_all_def goroutines_fold_stopWorker in_registry_def)
qed

lemma Stop_returns_iff:
  "(Stop dn c \<noteq> None) = list_all (\<lambda>g. exits dn g \<or> in_registry c g) (goroutines c)"
proof -
  have "(Stop dn c \<noteq> None) = list_all (exits dn) (goroutines (cancel_all c))"
    by (simp add: Stop_def Let_def)
  also have "\<dots> =
     list_all (exits dn \<circ> (\<lambda>g. if in_registry c g then g\<lparr>cancelled := True\<rparr> else g))
       (goroutines c)"
    unfolding goroutines_cancel_all list.pred_map ..
  also have "exits dn \<circ> (\<lambda>g. if in_registry c g then g\<lparr>cancelled := True\<rparr> else g) =
     (\<lambda>g. exits dn g \<or> in_registry c g)"
    by (auto simp: exits_def fun_eq_iff)
  finally show ?thesis .
qed

lemma pruner_not_in_registry:
  assumes "registry_inv dn c" and "g \<in> set (goroutines c)" and "is_pruner g"
  shows "\<not> in_registry c g" and "\<not> cancelled g"
  using registry_invD(5) [OF assms(1)] assms(2,3) in_registry_values [of c g] by blast+

lemma pruner_untouched:
  assumes "registry_inv dn c" and "g \<in> set (goroutines c)" and "is_pruner g"
  shows "g \<in> set (goroutines (cancel_all c)) \<and> \<not> cancelled g"
proof -
  note p = pruner_not_in_registry [OF assms]
  let ?f = "\<lambda>g. if in_registry c g then g\<lparr>cancelled := True\<rparr> else g"
  have eq: "g = ?f g" using p(1) by simp
  have "g \<in> ?f ` set (goroutines c)"
    using eq assms(2) by (rule image_eqI)
  then have "g \<in> set (goroutines (cancel_all c))"
    unfolding goroutines_cancel_all set_map .
  with p(2) show ?thesis by blast
qed

lemma Stop_returns_iff_pruner:
  assumes "registry_inv dn c"
  shows "(Stop dn c \<noteq> None) = list_all (\<lambda>g. is_pruner g \<longrightarrow> dn (parent g)) (goroutines c)"
proof
  assume "Stop dn c \<noteq> None"
  then have all: "\<forall>g \<in> set (goroutines c). exits dn g \<or> in_registry c g"
    unfolding Stop_returns_iff list_all_iff .
  have "dn (parent g)" if g: "g \<in> set (goroutines c)" and p: "is_pruner g" for g
  proof -
    from pruner_not_in_registry [OF assms g p] all g have "exits dn g" "\<not> cancelled g"
      by blast+
    then show ?thesis by (simp add: exits_def)
  qed
  then show "list_all (\<lambda>g. is_pruner g \<longrightarrow> dn (parent g)) (goroutines c)"
    by (simp add: list_all_iff)
next
  assume pr: "list_all (\<lambda>g. is_pruner g \<longrightarrow> dn (parent g)) (goroutines c)"
  have "exits dn g \<or> in_registry c g" if g: "g \<in> set (goroutines c)" for g
  proof -
    from registry_invD(4) [OF assms] g
    have "exits dn g \<or> is_pruner g \<or> registered c g" by blast
    moreover have "is_pruner g \<Longrightarrow> exits dn g"
      using pr g by (simp add: list_all_iff exits_def)
    ultimately show ?thesis using registered_in_registry by blast
  qed
  then show "Stop dn c \<noteq> None"
    unfolding Stop_returns_iff list_all_iff by blast
qed

lemma cancel_all_leaves_pruners:
  assumes "registry_inv dn c" and "g \<in> set (running dn (cancel_all c))"
  shows "is_pruner g"
proof -
  have inv: "registry_inv dn (cancel_all c)"
    unfolding cancel_all_def using assms(1) by (rule registry_inv_fold_stopWorker)
  from assms(2) have g: "g \<in> set (goroutines (cancel_all c))" and ne: "\<not> exits dn g"
    by (simp_all add: running_def)
  from registry_invD(4) [OF inv] g
  have "exits dn g \<or> is_pruner g \<or> registered (cancel_all c) g" by blast
  moreover have "\<not> registered (cancel_all c) g"
    by (simp add: registered_def cancel_cancel_all split: task.splits)
  ultimately show ?thesis using ne by blast
qed

lemma cancel_all_no_loops:
  assumes "registry_inv dn c"
  shows "loops_of dn (cancel_all c) i = []"
proof (rule ccontr)
  assume "loops_of dn (cancel_all c) i \<noteq> []"
  then obtain g where g: "g \<in> set (loops_of dn (cancel_all c) i)"
    by (cases "loops_of dn (cancel_all c) i") auto
  then have r: "g \<in> set (running dn (cancel_all c))" and p: "polls i (task g)"
    by (simp_all add: loops_of_def)
  from cancel_all_leaves_pruners [OF assms r] p show False
    by (simp add: is_pruner_def)
qed

lemma Stop_Some:
  assumes "Stop dn c = Some c'"
  shows "c' = cancel_all c \<and> cancel c' = [] \<and> running dn c' = [] \<and> loops_of dn c' i = [] \<and>
         loop_tick dn request_ok c' h e s = (s, [])"
proof -
  from assms have c': "c' = cancel_all c"
    and ex: "\<forall>g \<in> set (goroutines c'). exits dn g"
    by (auto simp: Stop_def Let_def list_all_iff split: if_splits)
  have r: "running dn c' = []"
    using ex by (simp add: running_def)
  have t: "loop_tick dn request_ok c' h e s = (s, [])"
  proof (cases "find (\<lambda>g. handle g = h) (goroutines c')")
    case None
    then show ?thesis by (simp add: loop_tick_def)
  next
    case (Some g)
    then have "g \<in> set (goroutines c')"
      by (metis find_Some_iff nth_mem)
    with ex have "exits dn g" by blast
    with Some show ?thesis by (simp add: loop_tick_def split: task.splits)
  qed
  from c' r t show ?thesis
    by (simp add: cancel_cancel_all loops_of_def)
qed

text \<open>
  Claim C9, as the code has it. The cancellations of \<open>Stop\<close> cancel exactly the
  goroutines whose cancel func is in the registry. \<open>Stop\<close> returns exactly when every
  goroutine of the checker either is cancelled by it or has a context that is done
  anyway; when it returns, the state is the one after the cancellations, the registry is
  empty, no loop is running, and no tick writes a Check any more. When the registry
  describes the running loops, no polling loop is running after the cancellations; the
  prune ticker is left as it was, not cancelled; and \<open>Stop\<close> returns exactly when the
  context of the prune ticker, the one given to \<open>Start\<close>, is cancelled.
\<close>

theorem stop_cancels_and_waits:
  "goroutines (cancel_all c) =
     map (\<lambda>g. if in_registry c g then g\<lparr>cancelled := True\<rparr> else g) (goroutines c) \<and>
   (Stop dn c \<noteq> None) = list_all (\<lambda>g. exits dn g \<or> in_registry c g) (goroutines c) \<and>
   (Stop dn c = Some c' \<longrightarrow>
      c' = cancel_all c \<and> cancel c' = [] \<and> running dn c' = [] \<and> loops_of dn c' i = [] \<and>
      loop_tick dn request_ok c' h e s = (s, [])) \<and>
   (registry_inv dn c \<longrightarrow>
      loops_of dn (cancel_all c) i = [] \<and>
      (g \<in> set (goroutines c) \<and> is_pruner g \<longrightarrow>
         g \<in> set (goroutines (cancel_all c)) \<and> \<not> cancelled g) \<and>
      (Stop dn c \<noteq> None) =
        list_all (\<lambda>g. is_pruner g \<longrightarrow> dn (parent g)) (goroutines c))"
  using goroutines_cancel_all [of c] Stop_returns_iff [of dn c]
    Stop_Some [of dn c c' i request_ok h e s] cancel_all_no_loops [of dn c i]
    pruner_untouched [of dn c g] Stop_returns_iff_pruner [of dn c]
  by blast

text \<open>
  \<open>Stop\<close> while the context given to \<open>Start\<close> is live: the polling loop is cancelled,
  the prune ticker keeps running, and \<open>Stop\<close> does not return. The same after \<open>Add\<close> was
  called twice for one monitor: the first loop, no longer in the registry, keeps running.
\<close>

theorem stop_counterexample:
  "map task (running never_done (cancel_all started)) = [Pruner] \<and>
   Stop never_done started = None \<and>
   map handle (running never_done (cancel_all added_twice)) = [0] \<and>
   map task (running never_done (cancel_all added_twice)) =
     [Worker 1 ''http://api.test/health'' 60 10] \<and>
   Stop never_done added_twice = None"
  by (simp add: supervisor_defs)

theorem stop_cancels_and_waits_witness:
  "registry_inv start_done serving \<and>
   map handle (loops_of start_done serving 7) = [2] \<and>
   map task (filter is_pruner (goroutines serving)) = [Pruner] \<and>
   list_all (\<lambda>g. is_pruner g \<longrightarrow> start_done (parent g)) (goroutines serving) \<and>
   list_all (\<lambda>g. exits start_done g \<or> in_registry serving g) (goroutines serving) \<and>
   map cancelled (goroutines (cancel_all serving)) = [True, False, True] \<and>
   Stop start_done serving = Some (cancel_all serving) \<and>
   cancel (cancel_all serving) = [] \<and>
   running start_done (cancel_all serving) = [] \<and>
   loops_of start_done (cancel_all serving) 7 = [] \<and>
   loop_tick start_done no_control (cancel_all serving) 2 refused store0 = (store0, [])"
proof -
  let ?p = "\<lparr>handle = 1, task = Pruner, parent = 0, cancelled = False\<rparr>"
  have h1: "registry_inv start_done serving" by (simp add: supervisor_defs)
  have h2: "Stop start_done serving = Some (cancel_all serving)" by (simp add: supervisor_defs)
  have h3: "?p \<in> set (goroutines serving)" by (simp add: supervisor_defs)
  have h4: "is_pruner ?p" by (simp add: is_pruner_def)
  have e1: "map handle (loops_of start_done serving 7) = [2]" by (simp add: supervisor_defs)
  have e2: "map cancelled (goroutines (cancel_all serving)) = [True, False, True]"
    by (simp add: supervisor_defs)
  have e3: "map task (filter is_pruner (goroutines serving)) = [Pruner]"
    by (simp add: supervisor_defs)
  note T = stop_cancels_and_waits [of serving start_done "cancel_all serving" 7 no_control 2 refused store0 ?p]
  have n: "Stop start_done serving \<noteq> None" using h2 by simp
  have a: "list_all (\<lambda>g. exits start_done g \<or> in_registry serving g) (goroutines serving)"
    using T n by blast
  have b: "list_all (\<lambda>g. is_pruner g \<longrightarrow> start_done (parent g)) (goroutines serving)"
    using T n h1 by blast
  have c: "cancel (cancel_all serving) = [] \<and> running start_done (cancel_all serving) = [] \<and>
           loops_of start_done (cancel_all serving) 7 = [] \<and>
           loop_tick start_done no_control (cancel_all serving) 2 refused store0 = (store0, [])"
    using T h2 by blast
  from h1 h2 e1 e2 e3 a b c show ?thesis by blast
qed

end
